theory Spec2Isabelle
  imports Main "HOL-Library.Sublist" "HOL-Library.Word"
begin

section \<open>The keyword matcher (keyword\_matcher.cpp)\<close>

text \<open>
  Byte strings are \<open>string\<close> (lists of 8-bit characters); a \<open>std::string_view\<close> is
  the list of the bytes it views. \<open>std::string_view::find(v)\<close> returns the lowest
  position at which \<open>v\<close> starts inside the text, or \<open>npos\<close>; \<open>npos\<close> is \<open>None\<close>.
  The search tries every start position from the left, the end of the text included
  (where only the empty string is found).
\<close>

primrec find_from :: "string \<Rightarrow> string \<Rightarrow> nat \<Rightarrow> nat option" where
  "find_from v [] xpos = (if v = [] then Some xpos else None)"
| "find_from v (c # cs) xpos =
     (if prefix v (c # cs) then Some xpos else find_from v cs (Suc xpos))"

definition sv_find :: "string \<Rightarrow> string \<Rightarrow> nat option" where
  "sv_find text v = find_from v text 0"

text \<open>
  \<open>KeywordMatcher::matches\<close>: the range-for over \<open>keywords_\<close> with its early
  \<open>return true\<close>, and \<open>return false\<close> after the loop.
\<close>

fun matches :: "string list \<Rightarrow> string \<Rightarrow> bool" where
  "matches [] text = False"
| "matches (keyword # rest) text =
     (if sv_find text keyword \<noteq> None then True else matches rest text)"

section \<open>The monitor's state (log\_monitor.h)\<close>

definition MAX_LINE_LENGTH :: nat where
  "MAX_LINE_LENGTH = 5000"

definition DEFAULT_BUFFER_SIZE :: nat where
  "DEFAULT_BUFFER_SIZE = 64 * 1024"

abbreviation newline :: char where
  "newline \<equiv> CHR 0x0A"

text \<open>The four \<open>uint64_t\<close> counters of \<open>Statistics\<close>; \<open>+ 1\<close> wraps at \<open>2 ^ 64\<close>.\<close>

record statistics =
  linesProcessed :: "64 word"
  linesMatched :: "64 word"
  bytesRead :: "64 word"
  longLinesDiscarded :: "64 word"

text \<open>
  The input stream as far as \<open>start\<close> looks at it: whether a file is open, the three
  state bits, and the read offset into the file.
\<close>

record ifstream =
  is_open :: bool
  eofbit :: bool
  failbit :: bool
  badbit :: bool
  gpos :: nat
  gcount :: nat

text \<open>
  The fields of \<open>LogMonitor\<close> that the processing path reads or writes. The output
  stream is the sequence of bytes written to it so far (writes are taken to succeed);
  \<open>config_\<close> and the matcher are immutable and passed as parameters; the read buffer
  is the argument of \<open>processBuffer\<close>.
\<close>

record log_monitor =
  partialLine :: string
  stats :: statistics
  outStream :: string
  inStream :: ifstream
  lastPosition :: int

record config =
  cfg_keywords :: "string list"
  bufferSize :: nat

definition closed_stream :: ifstream where
  "closed_stream =
     \<lparr>is_open = False, eofbit = False, failbit = False, badbit = False, gpos = 0, gcount = 0\<rparr>"

definition zero_statistics :: statistics where
  "zero_statistics =
     \<lparr>linesProcessed = 0, linesMatched = 0, bytesRead = 0, longLinesDiscarded = 0\<rparr>"

text \<open>The state the constructor leaves, for an output file that was empty.\<close>

definition initial :: log_monitor where
  "initial =
     \<lparr>partialLine = [], stats = zero_statistics, outStream = [],
      inStream = closed_stream, lastPosition = 0\<rparr>"

section \<open>Line processing (log\_monitor.cpp)\<close>

definition processLine :: "string list \<Rightarrow> log_monitor \<Rightarrow> string \<Rightarrow> log_monitor" where
  "processLine kws m line =
     (if line = [] then m
      else
        let m1 = m\<lparr>stats := (stats m)\<lparr>linesProcessed := linesProcessed (stats m) + 1\<rparr>\<rparr>;
            long = (length line > MAX_LINE_LENGTH);
            processedLine = (if long then take MAX_LINE_LENGTH line else line);
            m2 = (if long
                  then m1\<lparr>stats := (stats m1)\<lparr>longLinesDiscarded :=
                                                  longLinesDiscarded (stats m1) + 1\<rparr>\<rparr>
                  else m1)
        in if matches kws processedLine
           then m2\<lparr>stats := (stats m2)\<lparr>linesMatched := linesMatched (stats m2) + 1\<rparr>,
                   outStream := outStream m2 @ processedLine @ [newline]\<rparr>
           else m2)"

text \<open>
  What the body of the \<open>for\<close> loop does at a terminator, for the segment
  \<open>buffer[start, i)\<close>.
\<close>

definition complete_line :: "string list \<Rightarrow> log_monitor \<Rightarrow> string \<Rightarrow> log_monitor" where
  "complete_line kws m segment =
     (if partialLine m \<noteq> []
      then
        let m1 = m\<lparr>partialLine := partialLine m @ segment\<rparr>;
            m2 = processLine kws m1 (partialLine m1)
        in m2\<lparr>partialLine := []\<rparr>
      else processLine kws m segment)"

text \<open>
  The \<open>for\<close> loop of \<open>processBuffer\<close>, from index \<open>i\<close> with the current value of
  \<open>start\<close>; it returns the final \<open>start\<close>.
\<close>

function scan_lines ::
  "string list \<Rightarrow> string \<Rightarrow> nat \<Rightarrow> nat \<Rightarrow> log_monitor \<Rightarrow> nat \<times> log_monitor" where
  "scan_lines kws buffer i start m =
     (if i < length buffer
      then
        (if buffer ! i = newline
         then
           let segmentLen = i - start;
               m' = complete_line kws m (take segmentLen (drop start buffer))
           in scan_lines kws buffer (i + 1) (i + 1) m'
         else scan_lines kws buffer (i + 1) start m)
      else (start, m))"
  by pat_completeness auto
termination
  by (relation "measure (\<lambda>(kws, buffer, i, start, m). length buffer - i)") auto

declare scan_lines.simps [simp del]

text \<open>
  \<open>processBuffer\<close>. The count \<open>MAX_LINE_LENGTH - partialLine_.length()\<close> is a
  \<open>size_t\<close> subtraction: were the carry longer than the cap it would wrap to a count
  near \<open>2 ^ 64\<close> and \<open>std::string::append\<close> would throw \<open>std::length_error\<close>; that
  is the error branch.
\<close>

datatype error = length_error | awaiting_read

definition processBuffer ::
  "string list \<Rightarrow> log_monitor \<Rightarrow> string \<Rightarrow> error + log_monitor" where
  "processBuffer kws m buffer =
     (let bytes = length buffer;
          m0 = m\<lparr>stats := (stats m)\<lparr>bytesRead := bytesRead (stats m) + of_nat bytes\<rparr>\<rparr>;
          (start, m1) = scan_lines kws buffer 0 0 m0
      in if start < bytes
         then
           let remainingLen = bytes - start
           in if length (partialLine m1) + remainingLen \<ge> MAX_LINE_LENGTH
              then
                (if length (partialLine m1) > MAX_LINE_LENGTH then Inl length_error
                 else
                   let m2 = m1\<lparr>partialLine := partialLine m1 @
                              take (MAX_LINE_LENGTH - length (partialLine m1))
                                (drop start buffer)\<rparr>;
                       m3 = processLine kws m2 (partialLine m2);
                       m4 = m3\<lparr>partialLine := []\<rparr>
                   in Inr (m4\<lparr>stats := (stats m4)\<lparr>longLinesDiscarded :=
                                 longLinesDiscarded (stats m4) + 1\<rparr>\<rparr>))
              else Inr (m1\<lparr>partialLine := partialLine m1 @
                              take remainingLen (drop start buffer)\<rparr>)
         else Inr m1)"

text \<open>Successive calls of \<open>processBuffer\<close>, one per chunk, stopping at an error.\<close>

fun processBuffers ::
  "string list \<Rightarrow> log_monitor \<Rightarrow> string list \<Rightarrow> error + log_monitor" where
  "processBuffers kws m [] = Inr m"
| "processBuffers kws m (chunk # chunks) =
     (case processBuffer kws m chunk of
        Inl e \<Rightarrow> Inl e
      | Inr m' \<Rightarrow> processBuffers kws m' chunks)"

section \<open>The main loop (LogMonitor::start)\<close>

text \<open>
  The part of \<open>std::ifstream\<close> that \<open>start\<close> uses, after the C++ standard
  (\<open>[istream.unformatted]\<close>, \<open>[iostate.flags]\<close>):
  \<^item> \<open>good()\<close> holds when no state bit is set, \<open>eof()\<close> reads \<open>eofbit\<close>, \<open>fail()\<close>
    holds when \<open>failbit\<close> or \<open>badbit\<close> is set, \<open>clear()\<close> resets the three bits;
  \<^item> \<open>read(s, n)\<close> stores up to \<open>n\<close> bytes; when the end of the file comes before
    \<open>n\<close> bytes were stored it sets \<open>eofbit\<close> and \<open>failbit\<close>; a device error sets
    \<open>badbit\<close> and stores nothing; on a stream that is not good it sets \<open>failbit\<close>
    and stores nothing;
  \<^item> \<open>tellg()\<close> returns the read offset of a good stream and \<open>pos_type(-1)\<close>
    otherwise (its sentry then sets \<open>failbit\<close>);
  \<^item> a successful \<open>open\<close> clears the state; \<open>close\<close> leaves the state bits.
  What a \<open>read\<close> finds is the environment's: the bytes the file holds from the
  stream's offset on at that moment, or a device error.
\<close>

datatype read_event = Available string | DeviceError

definition ifs_good :: "ifstream \<Rightarrow> bool" where
  "ifs_good s = (\<not> eofbit s \<and> \<not> failbit s \<and> \<not> badbit s)"

definition ifs_eof :: "ifstream \<Rightarrow> bool" where
  "ifs_eof s = eofbit s"

definition ifs_fail :: "ifstream \<Rightarrow> bool" where
  "ifs_fail s = (failbit s \<or> badbit s)"

definition ifs_clear :: "ifstream \<Rightarrow> ifstream" where
  "ifs_clear s = s\<lparr>eofbit := False, failbit := False, badbit := False\<rparr>"

definition ifs_close :: "ifstream \<Rightarrow> ifstream" where
  "ifs_close s = s\<lparr>is_open := False\<rparr>"

definition ifs_open :: "ifstream \<Rightarrow> ifstream" where
  "ifs_open s =
     s\<lparr>is_open := True, eofbit := False, failbit := False, badbit := False, gpos := 0\<rparr>"

definition ifs_seekg :: "ifstream \<Rightarrow> int \<Rightarrow> ifstream" where
  "ifs_seekg s p =
     (if ifs_fail s then s
      else if p < 0 then s\<lparr>eofbit := False, failbit := True\<rparr>
      else s\<lparr>eofbit := False, gpos := nat p\<rparr>)"

definition ifs_read :: "ifstream \<Rightarrow> nat \<Rightarrow> read_event \<Rightarrow> string \<times> ifstream" where
  "ifs_read s n ev =
     (if \<not> ifs_good s then ([], s\<lparr>gcount := 0, failbit := True\<rparr>)
      else
        (case ev of
           Available bs \<Rightarrow>
             let got = take n bs
             in (got, s\<lparr>gcount := length got, gpos := gpos s + length got,
                        eofbit := length bs < n, failbit := length bs < n\<rparr>)
         | DeviceError \<Rightarrow> ([], s\<lparr>gcount := 0, badbit := True\<rparr>)))"

definition ifs_tellg :: "ifstream \<Rightarrow> int \<times> ifstream" where
  "ifs_tellg s = (if ifs_good s then (int (gpos s), s) else (- 1, s\<lparr>failbit := True\<rparr>))"

text \<open>
  One pass through the body of the inner \<open>while (inStream_.good())\<close> loop, on the
  monitor and the \<open>dataRead\<close> flag; the last component tells whether the pass ended
  in a \<open>break\<close>.
\<close>

definition read_pass ::
  "config \<Rightarrow> read_event \<Rightarrow> log_monitor \<times> bool \<Rightarrow> error + (log_monitor \<times> bool) \<times> bool" where
  "read_pass cfg ev md =
     (case md of (m, dataRead) \<Rightarrow>
        let (buffer, s1) = ifs_read (inStream m) (bufferSize cfg) ev;
            m1 = m\<lparr>inStream := s1\<rparr>;
            bytes = gcount s1
        in
          (case (if bytes > 0
                 then
                   (case processBuffer (cfg_keywords cfg) m1 buffer of
                      Inl e \<Rightarrow> Inl e
                    | Inr m2 \<Rightarrow>
                        let (pos, s2) = ifs_tellg (inStream m2)
                        in Inr (m2\<lparr>inStream := s2, lastPosition := pos\<rparr>, True))
                 else Inr (m1, dataRead)) of
             Inl e \<Rightarrow> Inl e
           | Inr (m3, d) \<Rightarrow>
               if ifs_eof (inStream m3)
               then Inr ((m3\<lparr>inStream := ifs_clear (inStream m3)\<rparr>, d), True)
               else if ifs_fail (inStream m3) \<and> \<not> ifs_eof (inStream m3)
               then Inr ((m3\<lparr>inStream := ifs_close (inStream m3),
                              lastPosition := 0,
                              partialLine := []\<rparr>, d), True)
               else Inr ((m3, d), False)))"

text \<open>
  The inner loop, on the list of what its successive reads find. It returns the events
  it did not consume; it is \<open>awaiting_read\<close> when the stream is still good and the
  list has run out.
\<close>

fun read_loop ::
  "config \<Rightarrow> read_event list \<Rightarrow> log_monitor \<times> bool \<Rightarrow>
   error + (log_monitor \<times> bool) \<times> read_event list" where
  "read_loop cfg [] (m, dataRead) =
     (if ifs_good (inStream m) then Inl awaiting_read else Inr ((m, dataRead), []))"
| "read_loop cfg (ev # evs) (m, dataRead) =
     (if ifs_good (inStream m)
      then
        (case read_pass cfg ev (m, dataRead) of
           Inl e \<Rightarrow> Inl e
         | Inr (md, stop) \<Rightarrow> if stop then Inr (md, evs) else read_loop cfg evs md)
      else Inr ((m, dataRead), ev # evs))"

text \<open>
  One pass through the body of the outer \<open>while (running_)\<close> loop; \<open>can_open\<close> tells
  whether opening the input file succeeds (an \<open>open\<close> that fails sets \<open>failbit\<close>).
  The returned flag is \<open>dataRead\<close>: the pass ends in a sleep when it is false.
\<close>

definition loop_pass ::
  "config \<Rightarrow> bool \<Rightarrow> read_event list \<Rightarrow> log_monitor \<Rightarrow>
   error + (log_monitor \<times> bool) \<times> read_event list" where
  "loop_pass cfg can_open evs m =
     (if \<not> is_open (inStream m)
      then
        (if can_open
         then read_loop cfg evs
                (m\<lparr>inStream := ifs_seekg (ifs_open (inStream m)) (lastPosition m)\<rparr>, False)
         else Inr ((m\<lparr>inStream := (inStream m)\<lparr>failbit := True\<rparr>\<rparr>, False), evs))
      else read_loop cfg evs (m, False))"

definition default_config :: "string list \<Rightarrow> config" where
  "default_config kws = \<lparr>cfg_keywords = kws, bufferSize = DEFAULT_BUFFER_SIZE\<rparr>"

text \<open>A configuration with a four-byte read buffer, for the examples.\<close>

definition small_config :: config where
  "small_config = \<lparr>cfg_keywords = [''key1''], bufferSize = 4\<rparr>"

section \<open>What a buffer contributes: lines, carry, forced flush\<close>

text \<open>
  The segments of a buffer that end in a terminator, and the bytes after the last
  terminator; \<open>seg\<close> holds the bytes of the segment read so far.
\<close>

fun split_lines :: "string \<Rightarrow> string \<Rightarrow> string list \<times> string" where
  "split_lines [] seg = ([], seg)"
| "split_lines (c # cs) seg =
     (if c = newline
      then (case split_lines cs [] of (segs, rest) \<Rightarrow> (seg # segs, rest))
      else split_lines cs (seg @ [c]))"

text \<open>
  With carry \<open>p\<close> on entry, \<open>processBuffer\<close> passes these lines to \<open>processLine\<close>,
  in this order: the carry joined to the first segment, the later segments, and, when
  the unterminated rest brings the carry to the cap, the carry filled up to the cap
  (\<open>buffer_flushes\<close>). \<open>buffer_carry\<close> is the carry it leaves.
\<close>

definition buffer_flushes :: "string \<Rightarrow> string \<Rightarrow> bool" where
  "buffer_flushes p buffer =
     (case split_lines buffer [] of
        (segs, rest) \<Rightarrow>
          rest \<noteq> [] \<and> MAX_LINE_LENGTH \<le> length (if segs = [] then p else []) + length rest)"

definition buffer_lines :: "string \<Rightarrow> string \<Rightarrow> string list" where
  "buffer_lines p buffer =
     (case split_lines buffer [] of
        (segs, rest) \<Rightarrow>
          (case segs of [] \<Rightarrow> [] | s # ss \<Rightarrow> (p @ s) # ss) @
          (let p' = (if segs = [] then p else [])
           in if rest \<noteq> [] \<and> MAX_LINE_LENGTH \<le> length p' + length rest
              then [p' @ take (MAX_LINE_LENGTH - length p') rest] else []))"

definition buffer_carry :: "string \<Rightarrow> string \<Rightarrow> string" where
  "buffer_carry p buffer =
     (case split_lines buffer [] of
        (segs, rest) \<Rightarrow>
          (let p' = (if segs = [] then p else [])
           in if rest \<noteq> [] \<and> MAX_LINE_LENGTH \<le> length p' + length rest
              then [] else p' @ rest))"

text \<open>The lines passed to \<open>processLine\<close> over a sequence of chunks, from carry \<open>p\<close>.\<close>

fun stream_lines :: "string \<Rightarrow> string list \<Rightarrow> string list" where
  "stream_lines p [] = []"
| "stream_lines p (chunk # chunks) =
     buffer_lines p chunk @ stream_lines (buffer_carry p chunk) chunks"

text \<open>
  What \<open>processLine\<close> does with a line: it counts it when it is not empty, counts it
  as long when it is over the cap, and writes it, cut at the cap and followed by one
  terminator, when the cut line matches.
\<close>

definition counts_as_line :: "string \<Rightarrow> bool" where
  "counts_as_line l = (l \<noteq> [])"

definition line_matched :: "string list \<Rightarrow> string \<Rightarrow> bool" where
  "line_matched kws l = (l \<noteq> [] \<and> matches kws (take MAX_LINE_LENGTH l))"

definition line_too_long :: "string \<Rightarrow> bool" where
  "line_too_long l = (MAX_LINE_LENGTH < length l)"

definition line_output :: "string list \<Rightarrow> string \<Rightarrow> string" where
  "line_output kws l =
     (if l \<noteq> [] \<and> matches kws (take MAX_LINE_LENGTH l)
      then take MAX_LINE_LENGTH l @ [newline] else [])"

text \<open>The state after \<open>processBuffer\<close>, field by field.\<close>

definition after_buffer :: "string list \<Rightarrow> log_monitor \<Rightarrow> string \<Rightarrow> log_monitor" where
  "after_buffer kws m buffer =
     (let p = partialLine m; ls = buffer_lines p buffer
      in \<lparr>partialLine = buffer_carry p buffer,
          stats = \<lparr>
            linesProcessed = linesProcessed (stats m) + of_nat (length (filter counts_as_line ls)),
            linesMatched = linesMatched (stats m) + of_nat (length (filter (line_matched kws) ls)),
            bytesRead = bytesRead (stats m) + of_nat (length buffer),
            longLinesDiscarded = longLinesDiscarded (stats m)
              + of_nat (length (filter line_too_long ls))
              + (if buffer_flushes p buffer then 1 else 0)\<rparr>,
          outStream = outStream m @ concat (map (line_output kws) ls),
          inStream = inStream m,
          lastPosition = lastPosition m\<rparr>)"

text \<open>
  The newline-delimited records of an input: the pieces between terminators, the piece
  after the last terminator included.
\<close>

definition input_records :: "string \<Rightarrow> string list" where
  "input_records input = (case split_lines input [] of (segs, rest) \<Rightarrow> segs @ [rest])"

text \<open>
  No chunk of the sequence ends with the unterminated carry at the cap: no forced flush
  happens from carry \<open>p\<close>.
\<close>

fun no_forced_flush :: "string \<Rightarrow> string list \<Rightarrow> bool" where
  "no_forced_flush p [] = True"
| "no_forced_flush p (chunk # chunks) =
     (\<not> buffer_flushes p chunk \<and> no_forced_flush (buffer_carry p chunk) chunks)"

text \<open>
  Every record of the input that starts with the carry \<open>p\<close>, the piece after the last
  terminator included, is shorter than the cap.
\<close>

definition records_below_cap :: "string \<Rightarrow> string \<Rightarrow> bool" where
  "records_below_cap p input =
     (case split_lines input p of
        (segs, rest) \<Rightarrow> list_all (\<lambda>r. length r < MAX_LINE_LENGTH) (segs @ [rest]))"

section \<open>What the matcher finds\<close>

lemma find_from_None: "find_from v t xpos = None \<longleftrightarrow> \<not> sublist v t"
  by (induction t arbitrary: xpos) (auto simp: sublist_Cons_right)

lemma sv_find_None: "sv_find text v = None \<longleftrightarrow> \<not> sublist v text"
  by (simp add: sv_find_def find_from_None)

lemma matches_iff: "matches kws text \<longleftrightarrow> (\<exists>k \<in> set kws. sublist k text)"
  by (induction kws) (auto simp: sv_find_None)

section \<open>The scanning loop and the buffer's lines\<close>

lemma scan_lines_split:
  "start \<le> i \<Longrightarrow> i \<le> length buffer \<Longrightarrow>
   scan_lines kws buffer i start m =
     (case split_lines (drop i buffer) (take (i - start) (drop start buffer)) of
        (segs, rest) \<Rightarrow> (length buffer - length rest, foldl (complete_line kws) m segs))"
proof (induction kws buffer i start m rule: scan_lines.induct)
  case (1 kws buffer i start m)
  show ?case
  proof (cases "i < length buffer")
    case False
    with "1.prems" have "i = length buffer" by simp
    with "1.prems" show ?thesis
      by (subst scan_lines.simps) simp
  next
    case True
    then have d: "drop i buffer = buffer ! i # drop (Suc i) buffer"
      by (simp add: Cons_nth_drop_Suc)
    show ?thesis
    proof (cases "buffer ! i = newline")
      case nl: True
      from "1.IH"(1) [OF True nl refl refl] True
      have "scan_lines kws buffer (i + 1) (i + 1)
              (complete_line kws m (take (i - start) (drop start buffer))) =
            (case split_lines (drop (i + 1) buffer) [] of
               (segs, rest) \<Rightarrow> (length buffer - length rest,
                  foldl (complete_line kws)
                    (complete_line kws m (take (i - start) (drop start buffer))) segs))"
        by simp
      with True nl d show ?thesis
        by (subst scan_lines.simps) (simp add: Let_def split: prod.splits)
    next
      case nnl: False
      from "1.prems" True have "take (Suc i - start) (drop start buffer) =
          take (i - start) (drop start buffer) @ [buffer ! i]"
        by (simp add: Suc_diff_le take_Suc_conv_app_nth)
      with "1.IH"(2) [OF True nnl] "1.prems" True nnl d show ?thesis
        by (subst scan_lines.simps) simp
    qed
  qed
qed

lemma processLine_partialLine_update:
  "processLine kws (m\<lparr>partialLine := x\<rparr>) l = (processLine kws m l)\<lparr>partialLine := x\<rparr>"
  by (simp add: processLine_def Let_def)

lemma processLine_bytesRead_update:
  "processLine kws (m\<lparr>stats := (stats m)\<lparr>bytesRead := b\<rparr>\<rparr>) l =
   (processLine kws m l)\<lparr>stats := (stats (processLine kws m l))\<lparr>bytesRead := b\<rparr>\<rparr>"
  by (simp add: processLine_def Let_def)

lemma partialLine_processLine [simp]:
  "partialLine (processLine kws m l) = partialLine m"
  by (simp add: processLine_def Let_def)

lemma inStream_processLine [simp]:
  "inStream (processLine kws m l) = inStream m"
  by (simp add: processLine_def Let_def)

lemma lastPosition_processLine [simp]:
  "lastPosition (processLine kws m l) = lastPosition m"
  by (simp add: processLine_def Let_def)

lemma bytesRead_processLine [simp]:
  "bytesRead (stats (processLine kws m l)) = bytesRead (stats m)"
  by (simp add: processLine_def Let_def)

lemma outStream_processLine:
  "outStream (processLine kws m l) = outStream m @ line_output kws l"
  by (simp add: processLine_def line_output_def Let_def)

lemma complete_line_eq:
  "complete_line kws m seg = (processLine kws m (partialLine m @ seg))\<lparr>partialLine := []\<rparr>"
proof (cases "partialLine m = []")
  case True
  have "(processLine kws m seg)\<lparr>partialLine := partialLine (processLine kws m seg)\<rparr> =
        processLine kws m seg" by simp
  with True show ?thesis by (simp add: complete_line_def)
next
  case False
  then show ?thesis
    by (simp add: complete_line_def Let_def processLine_partialLine_update)
qed

lemma foldl_processLine_partialLine_update:
  "foldl (processLine kws) (m\<lparr>partialLine := x\<rparr>) ls =
   (foldl (processLine kws) m ls)\<lparr>partialLine := x\<rparr>"
  by (induction ls arbitrary: m) (simp_all add: processLine_partialLine_update)

lemma foldl_complete_line_empty:
  "partialLine m = [] \<Longrightarrow>
   foldl (complete_line kws) m segs = foldl (processLine kws) m segs"
proof (induction segs arbitrary: m)
  case Nil
  then show ?case by simp
next
  case (Cons s segs)
  then have "complete_line kws m s = processLine kws m s"
    by (simp add: complete_line_def)
  with Cons show ?case by simp
qed

lemma foldl_complete_line:
  "foldl (complete_line kws) m (s # ss) =
   (foldl (processLine kws) m ((partialLine m @ s) # ss))\<lparr>partialLine := []\<rparr>"
proof -
  have "foldl (complete_line kws) m (s # ss) =
        foldl (complete_line kws) ((processLine kws m (partialLine m @ s))\<lparr>partialLine := []\<rparr>) ss"
    by (simp add: complete_line_eq)
  also have "\<dots> = foldl (processLine kws) ((processLine kws m (partialLine m @ s))\<lparr>partialLine := []\<rparr>) ss"
    by (rule foldl_complete_line_empty) simp
  finally show ?thesis
    by (simp add: foldl_processLine_partialLine_update)
qed

lemma split_lines_suffix:
  "split_lines b seg = (segs, rest) \<Longrightarrow> \<exists>pre. seg @ b = pre @ rest"
proof (induction b arbitrary: seg segs rest)
  case Nil
  then show ?case by simp
next
  case (Cons c cs)
  show ?case
  proof (cases "c = newline")
    case True
    with Cons.prems obtain segs' where "split_lines cs [] = (segs', rest)"
      by (auto split: prod.splits)
    from Cons.IH [OF this] obtain pre where "cs = pre @ rest" by auto
    then have "seg @ c # cs = (seg @ c # pre) @ rest" by simp
    then show ?thesis by blast
  next
    case False
    with Cons.prems have "split_lines cs (seg @ [c]) = (segs, rest)" by simp
    from Cons.IH [OF this] show ?thesis by simp
  qed
qed

lemma split_lines_rest:
  assumes "split_lines b [] = (segs, rest)"
  shows "length rest \<le> length b" and "drop (length b - length rest) b = rest"
proof -
  from split_lines_suffix [OF assms] obtain pre where b: "b = pre @ rest" by auto
  then show "length rest \<le> length b" by simp
  from b show "drop (length b - length rest) b = rest" by simp
qed

lemma linesProcessed_processLine:
  "linesProcessed (stats (processLine kws m l)) =
   linesProcessed (stats m) + of_nat (length (filter counts_as_line [l]))"
  by (simp add: processLine_def Let_def counts_as_line_def)

lemma linesMatched_processLine:
  "linesMatched (stats (processLine kws m l)) =
   linesMatched (stats m) + of_nat (length (filter (line_matched kws) [l]))"
  by (simp add: processLine_def Let_def line_matched_def)

lemma longLinesDiscarded_processLine:
  "longLinesDiscarded (stats (processLine kws m l)) =
   longLinesDiscarded (stats m) + of_nat (length (filter line_too_long [l]))"
  by (auto simp add: processLine_def Let_def line_too_long_def MAX_LINE_LENGTH_def)

lemma partialLine_foldl_processLine [simp]:
  "partialLine (foldl (processLine kws) m ls) = partialLine m"
  by (induction ls arbitrary: m) simp_all

lemma inStream_foldl_processLine [simp]:
  "inStream (foldl (processLine kws) m ls) = inStream m"
  by (induction ls arbitrary: m) simp_all

lemma lastPosition_foldl_processLine [simp]:
  "lastPosition (foldl (processLine kws) m ls) = lastPosition m"
  by (induction ls arbitrary: m) simp_all

lemma bytesRead_foldl_processLine [simp]:
  "bytesRead (stats (foldl (processLine kws) m ls)) = bytesRead (stats m)"
  by (induction ls arbitrary: m) simp_all

lemma outStream_foldl_processLine:
  "outStream (foldl (processLine kws) m ls) = outStream m @ concat (map (line_output kws) ls)"
  by (induction ls arbitrary: m) (simp_all add: outStream_processLine)

lemma linesProcessed_foldl_processLine:
  "linesProcessed (stats (foldl (processLine kws) m ls)) =
   linesProcessed (stats m) + of_nat (length (filter counts_as_line ls))"
  by (induction ls arbitrary: m) (simp_all add: linesProcessed_processLine)

lemma linesMatched_foldl_processLine:
  "linesMatched (stats (foldl (processLine kws) m ls)) =
   linesMatched (stats m) + of_nat (length (filter (line_matched kws) ls))"
  by (induction ls arbitrary: m) (simp_all add: linesMatched_processLine)

lemma longLinesDiscarded_foldl_processLine:
  "longLinesDiscarded (stats (foldl (processLine kws) m ls)) =
   longLinesDiscarded (stats m) + of_nat (length (filter line_too_long ls))"
  by (induction ls arbitrary: m) (simp_all add: longLinesDiscarded_processLine)

lemmas processLine_fields =
  outStream_processLine linesProcessed_processLine linesMatched_processLine
  longLinesDiscarded_processLine
  outStream_foldl_processLine linesProcessed_foldl_processLine
  linesMatched_foldl_processLine longLinesDiscarded_foldl_processLine

lemma foldl_single: "foldl f a [y] = f a y"
  by simp

lemma processBuffer_eq:
  assumes "length (partialLine m) \<le> MAX_LINE_LENGTH"
  shows "processBuffer kws m buffer = Inr (after_buffer kws m buffer)"
proof -
  obtain segs rest where sp: "split_lines buffer [] = (segs, rest)"
    by (cases "split_lines buffer []")
  note r = split_lines_rest [OF sp]
  define m0 where "m0 = m\<lparr>stats := (stats m)\<lparr>bytesRead := bytesRead (stats m) + of_nat (length buffer)\<rparr>\<rparr>"
  have sc: "scan_lines kws buffer 0 0 m0 =
      (length buffer - length rest, foldl (complete_line kws) m0 segs)"
    using scan_lines_split [of 0 0 buffer kws m0] sp by simp
  have lt: "length buffer - length rest < length buffer \<longleftrightarrow> rest \<noteq> []"
    using r(1) by (cases rest) auto
  have len: "length buffer - (length buffer - length rest) = length rest"
    using r(1) by simp
  show ?thesis
  proof (cases segs)
    case Nil
    with assms sp sc lt len r(2) show ?thesis
      unfolding processBuffer_def after_buffer_def m0_def [symmetric]
      apply (simp add: Let_def buffer_lines_def buffer_carry_def buffer_flushes_def)
      apply (intro conjI impI log_monitor.equality statistics.equality)
      apply (simp_all add: m0_def processLine_fields Let_def)
      done
  next
    case (Cons s ss)
    with assms sp sc lt len r(2) show ?thesis
      unfolding processBuffer_def after_buffer_def m0_def [symmetric]
      apply (simp add: Let_def buffer_lines_def buffer_carry_def buffer_flushes_def
           foldl_complete_line del: foldl_Cons)
      apply (intro conjI impI log_monitor.equality statistics.equality)
      apply (simp_all add: m0_def processLine_fields Let_def del: foldl_Cons)
      done
  qed
qed

section \<open>Runs over several chunks\<close>


lemma buffer_carry_bound:
  "length p < MAX_LINE_LENGTH \<Longrightarrow> length (buffer_carry p buffer) < MAX_LINE_LENGTH"
  by (auto simp: buffer_carry_def Let_def split: prod.splits)

lemma buffer_carry_le [simp]:
  "length p < MAX_LINE_LENGTH \<Longrightarrow> length (buffer_carry p buffer) \<le> MAX_LINE_LENGTH"
  using buffer_carry_bound [of p buffer] by simp

lemma partialLine_after_buffer [simp]:
  "partialLine (after_buffer kws m buffer) = buffer_carry (partialLine m) buffer"
  by (simp add: after_buffer_def Let_def)

lemma outStream_after_buffer:
  "outStream (after_buffer kws m buffer) =
   outStream m @ concat (map (line_output kws) (buffer_lines (partialLine m) buffer))"
  by (simp add: after_buffer_def Let_def)

lemma linesMatched_after_buffer:
  "linesMatched (stats (after_buffer kws m buffer)) =
   linesMatched (stats m) +
   of_nat (length (filter (line_matched kws) (buffer_lines (partialLine m) buffer)))"
  by (simp add: after_buffer_def Let_def)

lemma processBuffers_eq:
  "length (partialLine m) < MAX_LINE_LENGTH \<Longrightarrow>
   processBuffers kws m chunks = Inr (foldl (after_buffer kws) m chunks)"
proof (induction chunks arbitrary: m)
  case Nil
  then show ?case by simp
next
  case (Cons chunk chunks)
  from Cons.prems have "length (partialLine (after_buffer kws m chunk)) < MAX_LINE_LENGTH"
    by (simp add: buffer_carry_bound)
  from Cons.IH [OF this] Cons.prems show ?case
    by (simp add: processBuffer_eq)
qed

lemma partialLine_foldl_after_buffer:
  "length (partialLine m) < MAX_LINE_LENGTH \<Longrightarrow>
   length (partialLine (foldl (after_buffer kws) m chunks)) < MAX_LINE_LENGTH"
  by (induction chunks arbitrary: m) (simp_all add: buffer_carry_bound)

lemma outStream_foldl_after_buffer:
  "outStream (foldl (after_buffer kws) m chunks) =
   outStream m @ concat (map (line_output kws) (stream_lines (partialLine m) chunks))"
  by (induction chunks arbitrary: m) (simp_all add: outStream_after_buffer)

lemma linesMatched_foldl_after_buffer:
  "linesMatched (stats (foldl (after_buffer kws) m chunks)) =
   linesMatched (stats m) +
   of_nat (length (filter (line_matched kws) (stream_lines (partialLine m) chunks)))"
  by (induction chunks arbitrary: m) (simp_all add: linesMatched_after_buffer)

lemma line_output_eq:
  "line_output kws l = (if line_matched kws l then take MAX_LINE_LENGTH l @ [newline] else [])"
  by (simp add: line_output_def line_matched_def)

lemma concat_line_output:
  "concat (map (line_output kws) ls) =
   concat (map (\<lambda>l. take MAX_LINE_LENGTH l @ [newline]) (filter (line_matched kws) ls))"
  by (induction ls) (simp_all add: line_output_eq)

lemma length_concat_written:
  "length (concat (map (\<lambda>l. take MAX_LINE_LENGTH l @ [newline]) ls)) =
   sum_list (map (\<lambda>l. min (length l) MAX_LINE_LENGTH + 1) ls)"
  by (induction ls) simp_all

lemma linesProcessed_after_buffer:
  "linesProcessed (stats (after_buffer kws m buffer)) =
   linesProcessed (stats m) +
   of_nat (length (filter counts_as_line (buffer_lines (partialLine m) buffer)))"
  by (simp add: after_buffer_def Let_def)

lemma longLinesDiscarded_after_buffer:
  "longLinesDiscarded (stats (after_buffer kws m buffer)) =
   longLinesDiscarded (stats m) +
   of_nat (length (filter line_too_long (buffer_lines (partialLine m) buffer))) +
   (if buffer_flushes (partialLine m) buffer then 1 else 0)"
  by (simp add: after_buffer_def Let_def)

lemma inStream_after_buffer [simp]:
  "inStream (after_buffer kws m buffer) = inStream m"
  by (simp add: after_buffer_def Let_def)

lemma lastPosition_after_buffer [simp]:
  "lastPosition (after_buffer kws m buffer) = lastPosition m"
  by (simp add: after_buffer_def Let_def)

section \<open>Evaluating concrete buffers\<close>


lemma split_lines_no_newline:
  "newline \<notin> set l \<Longrightarrow> split_lines (l @ b) seg = split_lines b (seg @ l)"
  by (induction l arbitrary: seg) auto

lemma split_lines_no_newline_all:
  "newline \<notin> set l \<Longrightarrow> split_lines l seg = ([], seg @ l)"
  using split_lines_no_newline [of l "[]" seg] by simp

lemma sv_find_foreign_char:
  "\<not> set k \<subseteq> set t \<Longrightarrow> sv_find t k = None"
  by (auto simp: sv_find_None dest: set_mono_sublist)

lemma sv_find_at_start:
  "prefix k t \<Longrightarrow> sv_find t k = Some 0"
  by (cases t) (simp_all add: sv_find_def)

lemma sv_find_replicate:
  "0 < n \<Longrightarrow> sv_find (replicate n c) [c] = Some 0"
  by (cases n) (simp_all add: sv_find_def)

lemma partialLine_initial [simp]: "partialLine initial = []"
  by (simp add: initial_def)

lemma outStream_initial [simp]: "outStream initial = []"
  by (simp add: initial_def)

lemma stats_initial [simp]: "stats initial = zero_statistics"
  by (simp add: initial_def)

lemma cap_pos [simp]: "0 < MAX_LINE_LENGTH"
  by (simp add: MAX_LINE_LENGTH_def)

lemma processBuffers_initial:
  "processBuffers kws initial chunks = Inr (foldl (after_buffer kws) initial chunks)"
  by (rule processBuffers_eq) simp

section \<open>Chunk boundaries below the cap\<close>

text \<open>
  As long as no forced flush happens, and so whenever every record is shorter than the
  cap, feeding the chunks one by one leaves the monitor in the state that their
  concatenation, fed as one buffer, leaves it in; the lines passed to \<open>processLine\<close>
  are then the terminated records of the input.
\<close>

lemma split_lines_append:
  "split_lines (a @ b) seg =
     (case split_lines a seg of (s1, r1) \<Rightarrow>
        (case split_lines b r1 of (s2, r2) \<Rightarrow> (s1 @ s2, r2)))"
  by (induction a arbitrary: seg) (auto split: prod.splits)

lemma split_lines_seg:
  "split_lines b seg =
     (case split_lines b [] of (segs, rest) \<Rightarrow>
        (case segs of [] \<Rightarrow> ([], seg @ rest) | s # ss \<Rightarrow> ((seg @ s) # ss, rest)))"
proof (induction b arbitrary: seg)
  case Nil
  then show ?case by simp
next
  case (Cons c cs)
  show ?case
  proof (cases "c = newline")
    case True
    then show ?thesis by (simp split: prod.splits)
  next
    case False
    have "split_lines (c # cs) seg = split_lines cs (seg @ [c])"
      using False by simp
    also have "\<dots> = (case split_lines cs [] of (segs, rest) \<Rightarrow>
        (case segs of [] \<Rightarrow> ([], (seg @ [c]) @ rest) | s # ss \<Rightarrow> (((seg @ [c]) @ s) # ss, rest)))"
      by (rule Cons.IH)
    finally have l: "split_lines (c # cs) seg = (case split_lines cs [] of (segs, rest) \<Rightarrow>
        (case segs of [] \<Rightarrow> ([], (seg @ [c]) @ rest) | s # ss \<Rightarrow> (((seg @ [c]) @ s) # ss, rest)))" .
    have "split_lines (c # cs) [] = split_lines cs [c]"
      using False by simp
    also have "\<dots> = (case split_lines cs [] of (segs, rest) \<Rightarrow>
        (case segs of [] \<Rightarrow> ([], [c] @ rest) | s # ss \<Rightarrow> (([c] @ s) # ss, rest)))"
      by (rule Cons.IH)
    finally have r: "split_lines (c # cs) [] = (case split_lines cs [] of (segs, rest) \<Rightarrow>
        (case segs of [] \<Rightarrow> ([], [c] @ rest) | s # ss \<Rightarrow> (([c] @ s) # ss, rest)))" .
    show ?thesis
      unfolding l r by (simp split: prod.splits list.splits)
  qed
qed

lemma split_lines_append_Nil:
  assumes "split_lines a [] = (s1, r1)" and "split_lines b [] = (s2, r2)"
  shows "split_lines (a @ b) [] =
     (case s2 of [] \<Rightarrow> (s1, r1 @ r2) | s # ss \<Rightarrow> (s1 @ (r1 @ s) # ss, r2))"
proof -
  have "split_lines b r1 = (case s2 of [] \<Rightarrow> ([], r1 @ r2) | s # ss \<Rightarrow> ((r1 @ s) # ss, r2))"
    using split_lines_seg [of b r1] assms(2) by simp
  then show ?thesis
    using assms(1) by (simp add: split_lines_append split: list.splits)
qed

lemma buffer_merge:
  assumes p: "length p < MAX_LINE_LENGTH" and nf: "\<not> buffer_flushes p a"
  shows "buffer_lines p (a @ b) = buffer_lines p a @ buffer_lines (buffer_carry p a) b
    \<and> buffer_carry p (a @ b) = buffer_carry (buffer_carry p a) b
    \<and> buffer_flushes p (a @ b) = buffer_flushes (buffer_carry p a) b"
proof -
  obtain s1 r1 where a: "split_lines a [] = (s1, r1)" by (cases "split_lines a []")
  obtain s2 r2 where b: "split_lines b [] = (s2, r2)" by (cases "split_lines b []")
  note ab = split_lines_append_Nil [OF a b]
  show ?thesis
  proof (cases s2)
    case Nil
    show ?thesis
    proof (cases s1)
      case s1: Nil
      with Nil a b ab p nf show ?thesis
        by (auto simp: buffer_lines_def buffer_carry_def buffer_flushes_def Let_def)
    next
      case s1: (Cons x xs)
      with Nil a b ab p nf show ?thesis
        by (auto simp: buffer_lines_def buffer_carry_def buffer_flushes_def Let_def)
    qed
  next
    case (Cons s ss)
    show ?thesis
    proof (cases s1)
      case s1: Nil
      with Cons a b ab p nf show ?thesis
        by (auto simp: buffer_lines_def buffer_carry_def buffer_flushes_def Let_def)
    next
      case s1: (Cons x xs)
      with Cons a b ab p nf show ?thesis
        by (auto simp: buffer_lines_def buffer_carry_def buffer_flushes_def Let_def)
    qed
  qed
qed

lemma after_buffer_merge:
  assumes "length (partialLine m) < MAX_LINE_LENGTH"
    and "\<not> buffer_flushes (partialLine m) a"
  shows "after_buffer kws (after_buffer kws m a) b = after_buffer kws m (a @ b)"
  using buffer_merge [OF assms, of b] assms(2)
  by (simp add: after_buffer_def Let_def)

lemma foldl_after_buffer_concat:
  "length (partialLine m) < MAX_LINE_LENGTH \<Longrightarrow> no_forced_flush (partialLine m) chunks \<Longrightarrow>
   foldl (after_buffer kws) m chunks = after_buffer kws m (concat chunks)"
proof (induction chunks arbitrary: m)
  case Nil
  show ?case
    by (simp add: after_buffer_def Let_def buffer_lines_def buffer_carry_def buffer_flushes_def)
next
  case (Cons c cs)
  from Cons.prems have nf: "\<not> buffer_flushes (partialLine m) c"
    and rest: "no_forced_flush (partialLine (after_buffer kws m c)) cs"
    by simp_all
  from Cons.prems(1) have "length (partialLine (after_buffer kws m c)) < MAX_LINE_LENGTH"
    by (simp add: buffer_carry_bound)
  from Cons.IH [OF this rest]
  have "foldl (after_buffer kws) m (c # cs) =
        after_buffer kws (after_buffer kws m c) (concat cs)"
    by simp
  also have "\<dots> = after_buffer kws m (c @ concat cs)"
    using Cons.prems(1) nf by (rule after_buffer_merge)
  finally show ?case by simp
qed

lemma chunking_invariant_without_forced_flush:
  assumes "length (partialLine m) < MAX_LINE_LENGTH"
    and "no_forced_flush (partialLine m) chunks"
  shows "processBuffers kws m chunks = processBuffers kws m [concat chunks]"
proof -
  have "processBuffers kws m chunks = Inr (foldl (after_buffer kws) m chunks)"
    using assms(1) by (rule processBuffers_eq)
  also have "\<dots> = Inr (after_buffer kws m (concat chunks))"
    using assms by (simp add: foldl_after_buffer_concat)
  also have "\<dots> = processBuffers kws m [concat chunks]"
    using assms(1) by (simp add: processBuffer_eq)
  finally show ?thesis .
qed

lemma no_flush_if_short:
  assumes "split_lines c p = (s1, r1)" and "length r1 < MAX_LINE_LENGTH"
  shows "\<not> buffer_flushes p c" and "buffer_carry p c = r1" and "buffer_lines p c = s1"
proof -
  obtain segs rest where c: "split_lines c [] = (segs, rest)" by (cases "split_lines c []")
  from split_lines_seg [of c p] c assms(1)
  have r1: "r1 = (if segs = [] then p else []) @ rest"
    by (auto split: list.splits)
  with assms(2) c show "\<not> buffer_flushes p c"
    by (auto simp: buffer_flushes_def)
  from r1 assms(2) c show "buffer_carry p c = r1"
    by (auto simp: buffer_carry_def Let_def)
  from split_lines_seg [of c p] c assms(1)
  have "s1 = (case segs of [] \<Rightarrow> [] | s # ss \<Rightarrow> (p @ s) # ss)"
    by (auto split: list.splits)
  with r1 assms(2) c show "buffer_lines p c = s1"
    by (auto simp: buffer_lines_def Let_def)
qed

lemma records_below_cap_no_forced_flush:
  "records_below_cap p (concat chunks) \<Longrightarrow> no_forced_flush p chunks"
proof (induction chunks arbitrary: p)
  case Nil
  then show ?case by simp
next
  case (Cons c cs)
  obtain s1 r1 where c: "split_lines c p = (s1, r1)" by (cases "split_lines c p")
  obtain s2 r2 where cs: "split_lines (concat cs) r1 = (s2, r2)"
    by (cases "split_lines (concat cs) r1")
  from c cs have all: "split_lines (concat (c # cs)) p = (s1 @ s2, r2)"
    by (simp add: split_lines_append)
  with Cons.prems have short: "list_all (\<lambda>r. length r < MAX_LINE_LENGTH) (s2 @ [r2])"
    by (simp add: records_below_cap_def)
  then have tail: "records_below_cap r1 (concat cs)"
    using cs by (simp add: records_below_cap_def)
  obtain segs rest where cs0: "split_lines (concat cs) [] = (segs, rest)"
    by (cases "split_lines (concat cs) []")
  from split_lines_seg [of "concat cs" r1] cs cs0
  have "(segs = [] \<and> r2 = r1 @ rest) \<or> (\<exists>s ss. s2 = (r1 @ s) # ss)"
    by (auto split: list.splits)
  with short have r1: "length r1 < MAX_LINE_LENGTH"
    by auto
  from no_flush_if_short [OF c r1] Cons.IH [of r1] tail show ?case
    by simp
qed

lemma stream_lines_below_cap:
  "records_below_cap p (concat chunks) \<Longrightarrow>
   stream_lines p chunks = fst (split_lines (concat chunks) p)"
proof (induction chunks arbitrary: p)
  case Nil
  then show ?case by simp
next
  case (Cons c cs)
  obtain s1 r1 where c: "split_lines c p = (s1, r1)" by (cases "split_lines c p")
  obtain s2 r2 where cs: "split_lines (concat cs) r1 = (s2, r2)"
    by (cases "split_lines (concat cs) r1")
  from c cs have all: "split_lines (concat (c # cs)) p = (s1 @ s2, r2)"
    by (simp add: split_lines_append)
  with Cons.prems have short: "list_all (\<lambda>r. length r < MAX_LINE_LENGTH) (s2 @ [r2])"
    by (simp add: records_below_cap_def)
  then have tail: "records_below_cap r1 (concat cs)"
    using cs by (simp add: records_below_cap_def)
  obtain segs rest where cs0: "split_lines (concat cs) [] = (segs, rest)"
    by (cases "split_lines (concat cs) []")
  from split_lines_seg [of "concat cs" r1] cs cs0
  have "(segs = [] \<and> r2 = r1 @ rest) \<or> (\<exists>s ss. s2 = (r1 @ s) # ss)"
    by (auto split: list.splits)
  with short have r1: "length r1 < MAX_LINE_LENGTH"
    by auto
  from no_flush_if_short [OF c r1] Cons.IH [OF tail] cs all show ?case
    by simp
qed

lemma chunking_invariant_below_cap:
  assumes "records_below_cap [] (concat chunks)"
  shows "processBuffers kws initial chunks = processBuffers kws initial [concat chunks]"
  using assms
  by (intro chunking_invariant_without_forced_flush records_below_cap_no_forced_flush) simp_all

section \<open>The carry through the read loop\<close>

lemma read_pass_carry_below_cap:
  assumes "length (partialLine m) < MAX_LINE_LENGTH"
  shows "\<exists>m' d stop. read_pass cfg ev (m, dataRead) = Inr ((m', d), stop)
     \<and> length (partialLine m') < MAX_LINE_LENGTH"
proof -
  obtain buffer s1 where r: "ifs_read (inStream m) (bufferSize cfg) ev = (buffer, s1)"
    by (cases "ifs_read (inStream m) (bufferSize cfg) ev")
  let ?m1 = "m\<lparr>inStream := s1\<rparr>"
  from assms have pb: "processBuffer (cfg_keywords cfg) ?m1 buffer =
      Inr (after_buffer (cfg_keywords cfg) ?m1 buffer)"
    by (simp add: processBuffer_eq)
  from assms have "length (partialLine (after_buffer (cfg_keywords cfg) ?m1 buffer))
      < MAX_LINE_LENGTH"
    by (simp add: buffer_carry_bound)
  with assms r pb show ?thesis
    by (auto simp: read_pass_def Let_def split: prod.splits)
qed

section \<open>The matcher's contract\<close>

text \<open>
  C5: for a keyword list of non-empty strings (the empty string is not in the list),
  \<open>matches\<close> is true exactly when some keyword occurs as a contiguous block of the text (\<open>text = ps @ k @ ss\<close>); it is
  false for the empty keyword list and false on the empty text.
\<close>

theorem matches_iff_contiguous_occurrence:
  assumes "[] \<notin> set kws"
  shows "(matches kws text \<longleftrightarrow> (\<exists>k \<in> set kws. \<exists>ps ss. text = ps @ k @ ss))
         \<and> \<not> matches [] text
         \<and> \<not> matches kws []"
proof -
  have "matches kws text \<longleftrightarrow> (\<exists>k \<in> set kws. \<exists>ps ss. text = ps @ k @ ss)"
    by (simp add: matches_iff sublist_def)
  moreover have "\<not> matches kws []"
    using assms by (auto simp: matches_iff)
  ultimately show ?thesis by simp
qed

theorem matches_iff_contiguous_occurrence_witness:
  "[] \<notin> set [''key1'', ''key'']
   \<and> matches [''key1'', ''key''] ''monkey''
   \<and> (\<exists>k \<in> set [''key1'', ''key'']. \<exists>ps ss. ''monkey'' = ps @ k @ ss)
   \<and> \<not> matches [''key1'', ''key''] []"
proof -
  have ne: "[] \<notin> set [''key1'', ''key'']" by simp
  have m: "matches [''key1'', ''key''] ''monkey''" by (simp add: sv_find_def)
  from matches_iff_contiguous_occurrence [OF ne, of "''monkey''"] m ne
  show ?thesis by blast
qed

text \<open>
  C9: a keyword list that contains the empty string matches every text, the empty
  text included (\<open>find\<close> of the empty string returns position 0).
\<close>

theorem empty_keyword_matches_everything:
  assumes "[] \<in> set kws"
  shows "matches kws text \<and> matches kws []"
  using assms by (auto simp: matches_iff)

theorem empty_keyword_matches_everything_witness:
  "[] \<in> set [''key1'', []] \<and> matches [''key1'', []] ''no keyword here''
   \<and> matches [''key1'', []] []"
proof -
  have h: "[] \<in> set [''key1'', []]" by simp
  from empty_keyword_matches_everything [OF h, of "''no keyword here''"] h
  show ?thesis by simp
qed

section \<open>The carry and the output\<close>

text \<open>
  C10: a call of \<open>processBuffer\<close> on a monitor whose carry is shorter than
  \<open>MAX_LINE_LENGTH\<close> returns normally and leaves a carry shorter than
  \<open>MAX_LINE_LENGTH\<close>; the carry is empty initially.
\<close>

theorem carry_stays_below_cap:
  assumes "length (partialLine m) < MAX_LINE_LENGTH"
  shows "\<exists>m'. processBuffer kws m buffer = Inr m' \<and> length (partialLine m') < MAX_LINE_LENGTH"
proof -
  from assms have "processBuffer kws m buffer = Inr (after_buffer kws m buffer)"
    by (simp add: processBuffer_eq)
  moreover from assms have "length (partialLine (after_buffer kws m buffer)) < MAX_LINE_LENGTH"
    by (simp add: buffer_carry_bound)
  ultimately show ?thesis by blast
qed

theorem carry_stays_below_cap_witness:
  "length (partialLine initial) < MAX_LINE_LENGTH
   \<and> (\<exists>m'. processBuffer [''key1''] initial ''an unterminated line'' = Inr m'
         \<and> length (partialLine m') < MAX_LINE_LENGTH)"
proof -
  have h: "length (partialLine initial) < MAX_LINE_LENGTH" by simp
  from carry_stays_below_cap [OF h] h show ?thesis by blast
qed

text \<open>
  The write discipline: over any sequence of chunks, the bytes added to the output are
  the lines passed to \<open>processLine\<close> that matched (those counted in
  \<open>linesMatched\<close>), in that order, each cut at \<open>MAX_LINE_LENGTH\<close> and followed by
  one terminator, and nothing else. The lines passed to \<open>processLine\<close> are the
  records of the input only where no forced flush happens.
\<close>

lemma output_is_processed_lines:
  assumes "length (partialLine m) < MAX_LINE_LENGTH"
  shows "\<exists>m'. processBuffers kws m chunks = Inr m'
     \<and> outStream m' = outStream m @
         concat (map (\<lambda>l. take MAX_LINE_LENGTH l @ [newline])
           (filter (line_matched kws) (stream_lines (partialLine m) chunks)))
     \<and> length (outStream m') = length (outStream m) +
         sum_list (map (\<lambda>l. min (length l) MAX_LINE_LENGTH + 1)
           (filter (line_matched kws) (stream_lines (partialLine m) chunks)))
     \<and> linesMatched (stats m') = linesMatched (stats m) +
         of_nat (length (filter (line_matched kws) (stream_lines (partialLine m) chunks)))"
proof -
  let ?m' = "foldl (after_buffer kws) m chunks"
  let ?ls = "filter (line_matched kws) (stream_lines (partialLine m) chunks)"
  have run: "processBuffers kws m chunks = Inr ?m'"
    using assms by (rule processBuffers_eq)
  have out: "outStream ?m' = outStream m @
      concat (map (\<lambda>l. take MAX_LINE_LENGTH l @ [newline]) ?ls)"
    by (simp add: outStream_foldl_after_buffer concat_line_output)
  have len: "length (outStream ?m') = length (outStream m) +
      sum_list (map (\<lambda>l. min (length l) MAX_LINE_LENGTH + 1) ?ls)"
    unfolding out by (simp only: length_append length_concat_written)
  have cnt: "linesMatched (stats ?m') = linesMatched (stats m) + of_nat (length ?ls)"
    by (rule linesMatched_foldl_after_buffer)
  from run out len cnt show ?thesis by blast
qed

lemma output_is_processed_lines_example:
  "length (partialLine initial) < MAX_LINE_LENGTH
   \<and> (\<exists>m'. processBuffers [''key1''] initial
              [''a key1'' @ [newline] @ ''no ma'', ''tch'' @ [newline]] = Inr m'
         \<and> outStream m' = ''a key1'' @ [newline]
         \<and> length (outStream m') = 7
         \<and> linesMatched (stats m') = 1)"
proof -
  let ?chunks = "[''a key1'' @ [newline] @ ''no ma'', ''tch'' @ [newline]]"
  have h: "length (partialLine initial) < MAX_LINE_LENGTH" by simp
  have ls: "stream_lines (partialLine initial) ?chunks = [''a key1'', ''no match'']"
    by (simp add: buffer_lines_def buffer_carry_def MAX_LINE_LENGTH_def)
  have f: "filter (line_matched [''key1'']) [''a key1'', ''no match''] = [''a key1'']"
    by (simp add: line_matched_def matches_iff sublist_code MAX_LINE_LENGTH_def)
  from output_is_processed_lines [OF h, of "[''key1'']" ?chunks]
  obtain m' where run: "processBuffers [''key1''] initial ?chunks = Inr m'"
    and out: "outStream m' = outStream initial @
        concat (map (\<lambda>l. take MAX_LINE_LENGTH l @ [newline])
          (filter (line_matched [''key1'']) (stream_lines (partialLine initial) ?chunks)))"
    and cnt: "linesMatched (stats m') = linesMatched (stats initial) +
        of_nat (length (filter (line_matched [''key1''])
          (stream_lines (partialLine initial) ?chunks)))"
    by blast
  from out have out': "outStream m' = ''a key1'' @ [newline]"
    unfolding ls f by (simp add: MAX_LINE_LENGTH_def)
  from cnt have cnt': "linesMatched (stats m') = 1"
    unfolding ls f by (simp add: zero_statistics_def)
  from out' have "length (outStream m') = 7" by simp
  with h run out' cnt' show ?thesis by blast
qed

section \<open>Lines that reach the cap at the end of a chunk\<close>

text \<open>
  C1: the 5005-byte input of 5000 bytes \<open>X\<close>, then \<open>key1\<close> and a terminator, with
  keyword \<open>key1\<close>. In one chunk it is one line, cut to the 5000 \<open>X\<close>, which does not
  match: nothing is written. Split after byte 5000 (a read buffer of 5000 bytes), the
  first chunk is flushed as a line and \<open>key1\<close> is processed as a line of its own and
  written. The output depends on the chunking.
\<close>

theorem chunking_changes_output:
  "map_sum id outStream
     (processBuffers [''key1''] initial
        [replicate 5000 CHR ''X'' @ ''key1'' @ [newline]]) = Inr []
   \<and> map_sum id outStream
     (processBuffers [''key1''] initial
        [replicate 5000 CHR ''X'', ''key1'' @ [newline]]) = Inr (''key1'' @ [newline])"
  unfolding processBuffers_initial
  by (simp add: outStream_after_buffer buffer_lines_def buffer_carry_def
      split_lines_no_newline split_lines_no_newline_all line_output_def
      MAX_LINE_LENGTH_def sv_find_foreign_char sv_find_at_start)

text \<open>
  C2: for 5000 bytes \<open>Y\<close>, then \<open>key2\<close> and a terminator, split after byte 5000, with
  keyword \<open>key2\<close>, the line written is \<open>key2\<close>. The records of the input are the
  5004-byte record and the empty piece after the terminator; \<open>key2\<close> is a prefix of
  neither.
\<close>

theorem written_line_not_a_record_prefix:
  "map_sum id outStream
     (processBuffers [''key2''] initial
        [replicate 5000 CHR ''Y'', ''key2'' @ [newline]]) = Inr (''key2'' @ [newline])
   \<and> input_records (replicate 5000 CHR ''Y'' @ ''key2'' @ [newline]) =
       [replicate 5000 CHR ''Y'' @ ''key2'', []]
   \<and> \<not> prefix ''key2'' (replicate 5000 CHR ''Y'' @ ''key2'')
   \<and> \<not> prefix ''key2'' []"
proof -
  have "replicate 5000 CHR ''Y'' = CHR ''Y'' # replicate 4999 CHR ''Y''"
    by (simp add: replicate_Suc [symmetric] del: replicate_Suc)
  then have "\<not> prefix ''key2'' (replicate 5000 CHR ''Y'' @ ''key2'')"
    by simp
  then show ?thesis
    unfolding processBuffers_initial
    by (simp add: outStream_after_buffer buffer_lines_def buffer_carry_def input_records_def
        split_lines_no_newline split_lines_no_newline_all line_output_def
        MAX_LINE_LENGTH_def sv_find_foreign_char sv_find_at_start)
qed

text \<open>
  C3: the line of the test \<open>TruncatesLongLines\<close>, \<open>key1\<close>, a space and 10000 bytes
  \<open>X\<close>, followed by a terminator. Read through a buffer of 5000 bytes it arrives as
  chunks of 5000, 5000 and 6 bytes, and \<open>longLinesDiscarded\<close> ends at 2; in one chunk
  it ends at 1.
\<close>

theorem long_line_counted_twice:
  "map_sum id (\<lambda>m. longLinesDiscarded (stats m))
     (processBuffers [''key1''] initial
        [''key1 '' @ replicate 4995 CHR ''X'', replicate 5000 CHR ''X'',
         replicate 5 CHR ''X'' @ [newline]]) = Inr 2
   \<and> map_sum id (\<lambda>m. longLinesDiscarded (stats m))
     (processBuffers [''key1''] initial
        [''key1 '' @ replicate 4995 CHR ''X'' @ replicate 5000 CHR ''X'' @
         replicate 5 CHR ''X'' @ [newline]]) = Inr 1"
  unfolding processBuffers_initial
  by (simp add: longLinesDiscarded_after_buffer buffer_lines_def buffer_carry_def
      buffer_flushes_def split_lines_no_newline split_lines_no_newline_all
      line_too_long_def MAX_LINE_LENGTH_def zero_statistics_def)

text \<open>
  C4: a line of exactly 5000 bytes (\<open>key3\<close>, a space and 4995 bytes \<open>Z\<close>) whose
  terminator arrives in the next chunk: \<open>longLinesDiscarded\<close> ends at 1. With the
  terminator in the same chunk it stays 0.
\<close>

theorem exact_cap_line_counted_as_long:
  "length (''key3 '' @ replicate 4995 CHR ''Z'') = 5000
   \<and> map_sum id (\<lambda>m. longLinesDiscarded (stats m))
     (processBuffers [''key3''] initial
        [''key3 '' @ replicate 4995 CHR ''Z'', [newline]]) = Inr 1
   \<and> map_sum id (\<lambda>m. longLinesDiscarded (stats m))
     (processBuffers [''key3''] initial
        [''key3 '' @ replicate 4995 CHR ''Z'' @ [newline]]) = Inr 0"
  unfolding processBuffers_initial
  by (simp add: longLinesDiscarded_after_buffer buffer_lines_def buffer_carry_def
      buffer_flushes_def split_lines_no_newline split_lines_no_newline_all
      line_too_long_def MAX_LINE_LENGTH_def zero_statistics_def)

text \<open>
  C6: 5002 bytes \<open>X\<close> and a terminator, with keyword \<open>X\<close>. The input has one
  matched line, of raw length 5002, so the sum over the matched lines of the input of
  \<open>min (length l) MAX_LINE_LENGTH + 1\<close> is 5001, and 5001 bytes are written when the
  input arrives in one chunk. Split after byte 5000, the first chunk is flushed as a
  line and the remaining \<open>XX\<close> is written as a second line: 5004 bytes are written.
\<close>

theorem bytes_written_exceed_matched_lines:
  "input_records (replicate 5002 CHR ''X'' @ [newline]) = [replicate 5002 CHR ''X'', []]
   \<and> sum_list (map (\<lambda>l. min (length l) MAX_LINE_LENGTH + 1)
         (filter (line_matched [''X''])
            (input_records (replicate 5002 CHR ''X'' @ [newline])))) = 5001
   \<and> map_sum id (\<lambda>m. length (outStream m))
         (processBuffers [''X''] initial [replicate 5002 CHR ''X'' @ [newline]]) = Inr 5001
   \<and> map_sum id (\<lambda>m. length (outStream m))
         (processBuffers [''X''] initial
            [replicate 5000 CHR ''X'', ''XX'' @ [newline]]) = Inr 5004"
proof -
  have rec: "input_records (replicate 5002 CHR ''X'' @ [newline]) =
      [replicate 5002 CHR ''X'', []]"
    by (simp add: input_records_def split_lines_no_newline)
  have total: "sum_list (map (\<lambda>l. min (length l) MAX_LINE_LENGTH + 1)
      (filter (line_matched [''X'']) [replicate 5002 CHR ''X'', []])) = 5001"
    by (simp add: line_matched_def MAX_LINE_LENGTH_def sv_find_replicate)
  have one: "map_sum id (\<lambda>m. length (outStream m))
      (processBuffers [''X''] initial [replicate 5002 CHR ''X'' @ [newline]]) = Inr 5001"
    unfolding processBuffers_initial
    by (simp add: outStream_after_buffer buffer_lines_def split_lines_no_newline
        line_output_def MAX_LINE_LENGTH_def sv_find_replicate)
  have two: "map_sum id (\<lambda>m. length (outStream m))
      (processBuffers [''X''] initial [replicate 5000 CHR ''X'', ''XX'' @ [newline]]) =
      Inr 5004"
    unfolding processBuffers_initial
    by (simp add: outStream_after_buffer buffer_lines_def buffer_carry_def
        split_lines_no_newline_all line_output_def MAX_LINE_LENGTH_def
        sv_find_replicate sv_find_at_start)
  from rec total one two show ?thesis by simp
qed

section \<open>The read loop\<close>

text \<open>
  C7: when the stream is good before a read and the read leaves it failed without
  end-of-file, the pass through the loop body ends in a \<open>break\<close> with the input
  closed, the position cursor at zero and the carry empty.
\<close>

theorem read_error_recovery:
  assumes "ifs_good (inStream m)"
    and "ifs_fail (snd (ifs_read (inStream m) (bufferSize cfg) ev))"
    and "\<not> ifs_eof (snd (ifs_read (inStream m) (bufferSize cfg) ev))"
  shows "\<exists>m'. read_pass cfg ev (m, dataRead) = Inr ((m', dataRead), True)
     \<and> \<not> is_open (inStream m') \<and> lastPosition m' = 0 \<and> partialLine m' = []"
proof (cases ev)
  case (Available bs)
  with assms have False
    by (auto simp: ifs_read_def ifs_good_def ifs_fail_def ifs_eof_def Let_def)
  then show ?thesis ..
next
  case DeviceError
  with assms(1) show ?thesis
    by (simp add: read_pass_def ifs_read_def ifs_good_def ifs_fail_def ifs_eof_def
        ifs_close_def)
qed

theorem read_error_recovery_witness:
  "ifs_good (ifs_open closed_stream)
   \<and> ifs_fail (snd (ifs_read (ifs_open closed_stream) 4 DeviceError))
   \<and> \<not> ifs_eof (snd (ifs_read (ifs_open closed_stream) 4 DeviceError))
   \<and> (\<exists>m'. read_pass small_config DeviceError
              (\<lparr>partialLine = ''carried'', stats = zero_statistics, outStream = [],
                inStream = ifs_open closed_stream, lastPosition = 8\<rparr>, True) =
              Inr ((m', True), True)
         \<and> \<not> is_open (inStream m') \<and> lastPosition m' = 0 \<and> partialLine m' = [])"
proof -
  let ?m = "\<lparr>partialLine = ''carried'', stats = zero_statistics, outStream = [],
             inStream = ifs_open closed_stream, lastPosition = 8\<rparr>"
  have g: "ifs_good (inStream ?m)"
    by (simp add: ifs_good_def ifs_open_def closed_stream_def)
  have f: "ifs_fail (snd (ifs_read (inStream ?m) (bufferSize small_config) DeviceError))"
    by (simp add: ifs_fail_def ifs_read_def ifs_good_def ifs_open_def closed_stream_def)
  have e: "\<not> ifs_eof (snd (ifs_read (inStream ?m) (bufferSize small_config) DeviceError))"
    by (simp add: ifs_eof_def ifs_read_def ifs_good_def ifs_open_def closed_stream_def)
  from read_error_recovery [OF g f e, of True] g f e show ?thesis
    by (simp add: small_config_def)
qed

text \<open>
  C8: a read that ends at the end of the file sets \<open>eofbit\<close> and \<open>failbit\<close>, and
  \<open>tellg\<close> then returns \<open>-1\<close>, which is stored in \<open>lastPosition_\<close>. With the default
  buffer and a file of seven bytes the first pass of the loop leaves the cursor at
  \<open>-1\<close>. With a four-byte buffer and a file of six bytes the cursor is 4 after the
  first read and \<open>-1\<close> after the second, with no read error.
\<close>

theorem cursor_negative_after_short_read:
  "map_sum id (\<lambda>r. lastPosition (fst (fst r)))
     (loop_pass (default_config [''key1'']) True
        [Available (''a key1'' @ [newline])] initial) = Inr (- 1)
   \<and> map_sum id (\<lambda>r. (lastPosition (fst (fst r)), snd r))
     (read_pass small_config (Available (''ab'' @ [newline] @ ''cd'' @ [newline]))
        (initial\<lparr>inStream := ifs_seekg (ifs_open closed_stream) 0\<rparr>, False)) =
       Inr (4, False)
   \<and> map_sum id (\<lambda>r. lastPosition (fst (fst r)))
     (loop_pass small_config True
        [Available (''ab'' @ [newline] @ ''cd'' @ [newline]),
         Available (''d'' @ [newline])] initial) = Inr (- 1)"
  by (simp add: loop_pass_def default_config_def small_config_def DEFAULT_BUFFER_SIZE_def
      initial_def closed_stream_def ifs_open_def ifs_seekg_def ifs_fail_def ifs_good_def
      ifs_eof_def read_pass_def ifs_read_def ifs_tellg_def ifs_clear_def processBuffer_eq)

end
